theory Spec2Isabelle
  imports Main
begin

section \<open>The Electron IPC message connection\<close>

text \<open>
  The module \<^verbatim>\<open>electron-ipc-connection.ts\<close> wraps the \<^verbatim>\<open>ipcMain\<close> event emitter
  into the reader and the writer of a JSON-RPC message connection. Its state is four
  module-level objects (\<^verbatim>\<open>toDispose\<close>, \<^verbatim>\<open>errorEmitter\<close>, \<^verbatim>\<open>closeEmitter\<close>,
  \<^verbatim>\<open>partialEmitter\<close>) and the process-wide \<^verbatim>\<open>ipcMain\<close>. The model passes that
  state explicitly and records every call of a callback in a list of effects.

  A callback is a JavaScript function object; \<^verbatim>\<open>removeListener\<close> compares it by
  reference, so the model knows a callback by its reference only. Calling a callback is
  the effect \<open>Invoked cb m\<close>; what the callback does with the message is outside this
  module, and the model takes a callback to return normally without calling back into
  the connection. A message is opaque: the type variable \<open>'m\<close>.
\<close>

type_synonym callback = nat

type_synonym channel = string

datatype emitter_name = ErrorEmitter | CloseEmitter | PartialEmitter

datatype 'm effect =
    Invoked callback 'm
  | Fired emitter_name callback 'm
  | Released nat

subsection \<open>The channel registry: \<^verbatim>\<open>ipcMain\<close>\<close>

text \<open>
  Modelled from the spec: \<^verbatim>\<open>ipcMain\<close> is Electron's event emitter; its code is not
  among the sources. The spec's Shared Channel Registry: subscribing registers a
  callback for every message published on the topic afterwards, unsubscribing removes
  one registration and does nothing when there is none, publishing calls every callback
  subscribed on the topic with the message. Delivery is synchronous and in the order of
  registration, the case the spec's testable properties are stated for. A callback
  registered twice is held twice, and \<open>removeListener\<close> takes away the registration
  added last.
\<close>

type_synonym registry = "channel \<Rightarrow> callback list"

definition remove_last :: "'a \<Rightarrow> 'a list \<Rightarrow> 'a list" where
  "remove_last x xs = rev (remove1 x (rev xs))"

definition ipc_on :: "channel \<Rightarrow> callback \<Rightarrow> registry \<Rightarrow> registry" where
  "ipc_on ch cb r = r(ch := r ch @ [cb])"

definition ipc_removeListener :: "channel \<Rightarrow> callback \<Rightarrow> registry \<Rightarrow> registry" where
  "ipc_removeListener ch cb r = r(ch := remove_last cb (r ch))"

definition ipc_emit :: "channel \<Rightarrow> 'm \<Rightarrow> registry \<Rightarrow> 'm effect list" where
  "ipc_emit ch m r = map (\<lambda>cb. Invoked cb m) (r ch)"

subsection \<open>The signal emitters\<close>

text \<open>
  Modelled from the spec: the class \<^verbatim>\<open>Emitter\<close> of \<^verbatim>\<open>common/event\<close> is not among the
  sources. The spec's Signal Emitter holds zero or more subscriber callbacks; \<open>fire\<close>
  calls every current subscriber in subscription order; tearing the emitter down
  releases its subscribers. Subscribing never fails, also after the teardown. The handle
  a subscription returns for unsubscribing is left out: no claim uses it.
\<close>

record emitter =
  callbacks :: "callback list"
  emitter_disposed :: bool

definition new_emitter :: emitter where
  "new_emitter = \<lparr>callbacks = [], emitter_disposed = False\<rparr>"

definition emitter_event :: "callback \<Rightarrow> emitter \<Rightarrow> emitter" where
  "emitter_event cb e = e\<lparr>callbacks := callbacks e @ [cb]\<rparr>"

definition emitter_fire :: "emitter_name \<Rightarrow> 'm \<Rightarrow> emitter \<Rightarrow> 'm effect list" where
  "emitter_fire nm x e = map (\<lambda>cb. Fired nm cb x) (callbacks e)"

definition emitter_dispose :: "emitter \<Rightarrow> emitter" where
  "emitter_dispose e = e\<lparr>callbacks := [], emitter_disposed := True\<rparr>"

subsection \<open>The disposal tracker: \<^verbatim>\<open>toDispose\<close>\<close>

text \<open>
  Modelled from the spec: the class \<^verbatim>\<open>DisposableCollection\<close> of \<^verbatim>\<open>common/disposable\<close>
  is not among the sources. The spec's Disposal Tracker owns disposal actions and has
  two states, Active and Disposed. The one transition to Disposed runs every tracked
  action; a repeated disposal does nothing; after the disposal no registration has an
  effect.

  The two kinds of action this module hands to the tracker are in the source: the three
  emitters (line 31) and the closure of \<^verbatim>\<open>listen\<close> that calls
  \<^verbatim>\<open>ipcMain.removeListener(ElectronIpcMainChannel, callback)\<close> (lines 48 to 50). Each
  pushed action is an object of its own; the tracker numbers them as they come.
\<close>

datatype disposable =
    Emitter_disposable emitter_name
  | Remove_listener channel callback

record tracker =
  disposables :: "(nat \<times> disposable) list"
  is_disposed :: bool
  next_id :: nat

definition new_collection :: tracker where
  "new_collection = \<lparr>disposables = [], is_disposed = False, next_id = 0\<rparr>"

definition collection_push :: "disposable \<Rightarrow> tracker \<Rightarrow> tracker" where
  "collection_push d t =
     (if is_disposed t then t
      else t\<lparr>disposables := disposables t @ [(next_id t, d)], next_id := Suc (next_id t)\<rparr>)"

definition collection_pushAll :: "disposable list \<Rightarrow> tracker \<Rightarrow> tracker" where
  "collection_pushAll ds t = foldl (\<lambda>t d. collection_push d t) t ds"

subsection \<open>The module state\<close>

record 'm state =
  ipcMain :: registry
  toDispose :: tracker
  errorEmitter :: emitter
  closeEmitter :: emitter
  partialEmitter :: emitter
  effects :: "'m effect list"

definition ElectronIpcMainChannel :: channel where
  "ElectronIpcMainChannel = ''theia-json-rpc''"

text \<open>The state after the module is loaded (lines 24 to 31).\<close>

definition init :: "'m state" where
  "init =
     \<lparr>ipcMain = (\<lambda>_. []),
      toDispose =
        collection_pushAll
          [Emitter_disposable ErrorEmitter, Emitter_disposable CloseEmitter,
           Emitter_disposable PartialEmitter]
          new_collection,
      errorEmitter = new_emitter,
      closeEmitter = new_emitter,
      partialEmitter = new_emitter,
      effects = []\<rparr>"

text \<open>Running one tracked action, and the tracker's \<^verbatim>\<open>dispose\<close>.\<close>

fun run_disposable :: "disposable \<Rightarrow> 'm state \<Rightarrow> 'm state" where
  "run_disposable (Emitter_disposable ErrorEmitter) s =
     s\<lparr>errorEmitter := emitter_dispose (errorEmitter s)\<rparr>"
| "run_disposable (Emitter_disposable CloseEmitter) s =
     s\<lparr>closeEmitter := emitter_dispose (closeEmitter s)\<rparr>"
| "run_disposable (Emitter_disposable PartialEmitter) s =
     s\<lparr>partialEmitter := emitter_dispose (partialEmitter s)\<rparr>"
| "run_disposable (Remove_listener ch cb) s =
     s\<lparr>ipcMain := ipc_removeListener ch cb (ipcMain s)\<rparr>"

fun dispose_each :: "(nat \<times> disposable) list \<Rightarrow> 'm state \<Rightarrow> 'm state" where
  "dispose_each [] s = s"
| "dispose_each ((i, d) # ds) s =
     dispose_each ds (run_disposable d (s\<lparr>effects := effects s @ [Released i]\<rparr>))"

definition collection_dispose :: "'m state \<Rightarrow> 'm state" where
  "collection_dispose s =
     (if is_disposed (toDispose s) then s
      else (dispose_each (disposables (toDispose s)) s)
             \<lparr>toDispose := (toDispose s)\<lparr>disposables := [], is_disposed := True\<rparr>\<rparr>)"

subsection \<open>The reader and the writer (lines 41 to 67)\<close>

definition reader_onError :: "callback \<Rightarrow> 'm state \<Rightarrow> 'm state" where
  "reader_onError cb s = s\<lparr>errorEmitter := emitter_event cb (errorEmitter s)\<rparr>"

definition reader_onClose :: "callback \<Rightarrow> 'm state \<Rightarrow> 'm state" where
  "reader_onClose cb s = s\<lparr>closeEmitter := emitter_event cb (closeEmitter s)\<rparr>"

definition reader_onPartialMessage :: "callback \<Rightarrow> 'm state \<Rightarrow> 'm state" where
  "reader_onPartialMessage cb s = s\<lparr>partialEmitter := emitter_event cb (partialEmitter s)\<rparr>"

definition reader_listen :: "callback \<Rightarrow> 'm state \<Rightarrow> 'm state" where
  "reader_listen cb s =
     (if \<not> is_disposed (toDispose s)
      then s\<lparr>ipcMain := ipc_on ElectronIpcMainChannel cb (ipcMain s),
             toDispose := collection_push (Remove_listener ElectronIpcMainChannel cb) (toDispose s)\<rparr>
      else s)"

definition reader_dispose :: "'m state \<Rightarrow> 'm state" where
  "reader_dispose s = collection_dispose s"

definition writer_onClose :: "callback \<Rightarrow> 'm state \<Rightarrow> 'm state" where
  "writer_onClose cb s = s\<lparr>closeEmitter := emitter_event cb (closeEmitter s)\<rparr>"

definition writer_onError :: "callback \<Rightarrow> 'm state \<Rightarrow> 'm state" where
  "writer_onError cb s = s\<lparr>errorEmitter := emitter_event cb (errorEmitter s)\<rparr>"

definition writer_write :: "'m \<Rightarrow> 'm state \<Rightarrow> 'm state" where
  "writer_write m s =
     (if \<not> is_disposed (toDispose s)
      then s\<lparr>effects := effects s @ ipc_emit ElectronIpcMainChannel m (ipcMain s)\<rparr>
      else s)"

definition writer_dispose :: "'m state \<Rightarrow> 'm state" where
  "writer_dispose s = collection_dispose s"

subsection \<open>Sequences of calls\<close>

text \<open>
  One call on the connection, or one call of another party of the process on
  \<^verbatim>\<open>ipcMain\<close> itself (\<open>Other_on\<close>, \<open>Other_emit\<close>): \<^verbatim>\<open>ipcMain\<close> is process-wide, and
  the channel name is exported.
\<close>

datatype 'm op =
    Listen callback
  | Write 'm
  | Reader_dispose
  | Writer_dispose
  | Reader_onError callback
  | Reader_onClose callback
  | Reader_onPartialMessage callback
  | Writer_onClose callback
  | Writer_onError callback
  | Other_on channel callback
  | Other_emit channel 'm

fun step :: "'m op \<Rightarrow> 'm state \<Rightarrow> 'm state" where
  "step (Listen cb) s = reader_listen cb s"
| "step (Write m) s = writer_write m s"
| "step Reader_dispose s = reader_dispose s"
| "step Writer_dispose s = writer_dispose s"
| "step (Reader_onError cb) s = reader_onError cb s"
| "step (Reader_onClose cb) s = reader_onClose cb s"
| "step (Reader_onPartialMessage cb) s = reader_onPartialMessage cb s"
| "step (Writer_onClose cb) s = writer_onClose cb s"
| "step (Writer_onError cb) s = writer_onError cb s"
| "step (Other_on ch cb) s = s\<lparr>ipcMain := ipc_on ch cb (ipcMain s)\<rparr>"
| "step (Other_emit ch m) s = s\<lparr>effects := effects s @ ipc_emit ch m (ipcMain s)\<rparr>"

fun run :: "'m op list \<Rightarrow> 'm state \<Rightarrow> 'm state" where
  "run [] s = s"
| "run (x # xs) s = run xs (step x s)"

text \<open>What the effects show: the messages a callback was called with, in order; the
  tracked actions that were run; the calls of emitter subscribers.\<close>

fun delivered :: "callback \<Rightarrow> 'm effect list \<Rightarrow> 'm list" where
  "delivered cb [] = []"
| "delivered cb (Invoked c m # es) = (if c = cb then m # delivered cb es else delivered cb es)"
| "delivered cb (e # es) = delivered cb es"

fun released :: "'m effect list \<Rightarrow> nat list" where
  "released [] = []"
| "released (Released i # es) = i # released es"
| "released (e # es) = released es"

fun is_fired :: "'m effect \<Rightarrow> bool" where
  "is_fired (Fired nm cb x) = True"
| "is_fired e = False"

text \<open>An operation that leaves the registration of \<open>cb\<close> on the connection's channel and
  the tracker's state as they are: no disposal, and no further registration of \<open>cb\<close>
  on that channel.\<close>

fun keeps :: "callback \<Rightarrow> 'm op \<Rightarrow> bool" where
  "keeps cb (Listen c) = (c \<noteq> cb)"
| "keeps cb Reader_dispose = False"
| "keeps cb Writer_dispose = False"
| "keeps cb (Other_on ch c) = (\<not> (ch = ElectronIpcMainChannel \<and> c = cb))"
| "keeps cb x = True"

text \<open>Another party registers \<open>cb\<close> on \<^verbatim>\<open>ipcMain\<close> itself, past the connection.\<close>

fun registers_directly :: "callback \<Rightarrow> 'm op \<Rightarrow> bool" where
  "registers_directly cb (Other_on ch c) = (c = cb)"
| "registers_directly cb x = False"

fun is_dispose :: "'m op \<Rightarrow> bool" where
  "is_dispose Reader_dispose = True"
| "is_dispose Writer_dispose = True"
| "is_dispose x = False"

subsection \<open>Ownership of a registration\<close>

text \<open>
  The removal actions for \<open>cb\<close> on channel \<open>ch\<close> that the tracker still holds, and the
  invariant that every registration of \<open>cb\<close> on \<^verbatim>\<open>ipcMain\<close> has such an action: it
  holds as long as no other party registers \<open>cb\<close> past the connection.
\<close>

definition pending :: "'m state \<Rightarrow> channel \<Rightarrow> callback \<Rightarrow> nat" where
  "pending s ch cb = count_list (map snd (disposables (toDispose s))) (Remove_listener ch cb)"

definition owned :: "callback \<Rightarrow> 'm state \<Rightarrow> bool" where
  "owned cb s \<longleftrightarrow>
     (\<forall>ch. count_list (ipcMain s ch) cb \<le> pending s ch cb) \<and>
     (is_disposed (toDispose s) \<longrightarrow> disposables (toDispose s) = [])"

subsection \<open>Identity of the tracked actions\<close>

text \<open>
  The numbers of the actions that were run, followed by those the tracker still holds.
  In a reachable state no number occurs twice and every number is below the next one to
  be given out.
\<close>

definition tracked_ids :: "'m state \<Rightarrow> nat list" where
  "tracked_ids s = released (effects s) @ map fst (disposables (toDispose s))"

definition fresh :: "'m state \<Rightarrow> bool" where
  "fresh s \<longleftrightarrow>
     distinct (tracked_ids s) \<and> (\<forall>i \<in> set (tracked_ids s). i < next_id (toDispose s))"

text \<open>The connection's \<^verbatim>\<open>listen\<close> is called with \<open>cb\<close>.\<close>

fun listens :: "callback \<Rightarrow> 'm op \<Rightarrow> bool" where
  "listens cb (Listen c) = (c = cb)"
| "listens cb x = False"

section \<open>Basic facts\<close>

lemma run_append: "run (xs @ ys) s = run ys (run xs s)"
  by (induction xs arbitrary: s) simp_all

lemma delivered_append: "delivered cb (xs @ ys) = delivered cb xs @ delivered cb ys"
  by (induction cb xs rule: delivered.induct) simp_all

lemma released_append: "released (xs @ ys) = released xs @ released ys"
  by (induction xs rule: released.induct) simp_all

lemma delivered_map_Invoked:
  "delivered cb (map (\<lambda>c. Invoked c m) cs) = replicate (count_list cs cb) m"
  by (induction cs) simp_all

lemma released_map_Invoked: "released (map (\<lambda>c. Invoked c m) cs) = []"
  by (induction cs) simp_all

lemma fired_map_Invoked: "filter is_fired (map (\<lambda>c. Invoked c m) cs) = []"
  by (induction cs) simp_all

lemma count_list_remove1:
  "count_list (remove1 x xs) y = (if x = y then count_list xs y - 1 else count_list xs y)"
  by (induction xs) auto

lemma count_list_rev: "count_list (rev xs) y = count_list xs y"
  by (induction xs) auto

lemma count_list_remove_last:
  "count_list (remove_last x xs) y = (if x = y then count_list xs y - 1 else count_list xs y)"
  by (simp add: remove_last_def count_list_rev count_list_remove1)

lemmas connection_defs =
  reader_listen_def writer_write_def reader_dispose_def writer_dispose_def
  reader_onError_def reader_onClose_def reader_onPartialMessage_def
  writer_onClose_def writer_onError_def

lemma write_fan_out:
  "\<not> is_disposed (toDispose s) \<Longrightarrow>
   delivered cb (effects (writer_write m s)) =
     delivered cb (effects s) @ replicate (count_list (ipcMain s ElectronIpcMainChannel) cb) m"
  by (simp add: writer_write_def ipc_emit_def delivered_append delivered_map_Invoked)

lemma keeps_step:
  "keeps cb x \<Longrightarrow> \<not> is_disposed (toDispose s) \<Longrightarrow>
   \<not> is_disposed (toDispose (step x s)) \<and>
   count_list (ipcMain (step x s) ElectronIpcMainChannel) cb =
     count_list (ipcMain s ElectronIpcMainChannel) cb"
  by (cases x) (auto simp: connection_defs collection_push_def ipc_on_def)

lemma keeps_run:
  "list_all (keeps cb) xs \<Longrightarrow> \<not> is_disposed (toDispose s) \<Longrightarrow>
   \<not> is_disposed (toDispose (run xs s)) \<and>
   count_list (ipcMain (run xs s) ElectronIpcMainChannel) cb =
     count_list (ipcMain s ElectronIpcMainChannel) cb"
proof (induction xs arbitrary: s)
  case Nil
  then show ?case by simp
next
  case (Cons x xs)
  from Cons.prems have k: "keeps cb x" and ks: "list_all (keeps cb) xs" by simp_all
  from keeps_step [OF k Cons.prems(2)]
  have a: "\<not> is_disposed (toDispose (step x s))"
    and c: "count_list (ipcMain (step x s) ElectronIpcMainChannel) cb =
            count_list (ipcMain s ElectronIpcMainChannel) cb" by simp_all
  from Cons.IH [OF ks a] c show ?case by simp
qed

lemma listen_registers:
  "\<not> is_disposed (toDispose s) \<Longrightarrow>
   \<not> is_disposed (toDispose (reader_listen cb s)) \<and>
   count_list (ipcMain (reader_listen cb s) ElectronIpcMainChannel) c =
     (if c = cb then Suc (count_list (ipcMain s ElectronIpcMainChannel) c)
      else count_list (ipcMain s ElectronIpcMainChannel) c)"
  by (simp add: reader_listen_def collection_push_def ipc_on_def)

lemma dispose_each_toDispose: "toDispose (dispose_each ds s) = toDispose s"
proof (induction ds s rule: dispose_each.induct)
  case (1 s)
  show ?case by simp
next
  case (2 i d ds s)
  have "toDispose (run_disposable d t) = toDispose t" for t :: "'a state"
    by (cases "(d, t)" rule: run_disposable.cases) simp_all
  with 2 show ?case by simp
qed

lemma run_disposable_effects: "effects (run_disposable d t) = effects t"
  by (cases "(d, t)" rule: run_disposable.cases) simp_all

lemma dispose_each_effects:
  "effects (dispose_each ds s) = effects s @ map (\<lambda>p. Released (fst p)) ds"
  by (induction ds s rule: dispose_each.induct) (simp_all add: run_disposable_effects)

lemma delivered_map_Released: "delivered cb (map (\<lambda>p. Released (f p)) ds) = []"
  by (induction ds) simp_all

lemma released_map_Released: "released (map (\<lambda>p. Released (f p)) ds) = map f ds"
  by (induction ds) simp_all

lemma fired_map_Released: "filter is_fired (map (\<lambda>p. Released (f p)) ds) = []"
  by (induction ds) simp_all

lemma run_disposable_registry:
  "count_list (ipcMain (run_disposable d t) ch) cb =
   count_list (ipcMain t ch) cb - (if d = Remove_listener ch cb then 1 else 0)"
  by (cases "(d, t)" rule: run_disposable.cases)
    (auto simp: ipc_removeListener_def count_list_remove_last)

lemma dispose_each_registry:
  "count_list (ipcMain (dispose_each ds s) ch) cb =
   count_list (ipcMain s ch) cb - count_list (map snd ds) (Remove_listener ch cb)"
proof (induction ds s rule: dispose_each.induct)
  case (1 s)
  show ?case by simp
next
  case (2 i d ds s)
  have "count_list (ipcMain (run_disposable d (s\<lparr>effects := effects s @ [Released i]\<rparr>)) ch) cb =
        count_list (ipcMain s ch) cb - (if d = Remove_listener ch cb then 1 else 0)"
    by (simp add: run_disposable_registry)
  with 2 show ?case by simp
qed

lemma owned_init: "owned cb init"
  by (simp add: owned_def pending_def init_def collection_pushAll_def collection_push_def
      new_collection_def)

lemma owned_dispose: "owned cb s \<Longrightarrow> owned cb (collection_dispose s)"
  by (auto simp: owned_def pending_def collection_dispose_def dispose_each_registry
      dispose_each_toDispose)

lemma owned_step: "\<not> registers_directly cb x \<Longrightarrow> owned cb s \<Longrightarrow> owned cb (step x s)"
proof (cases x)
  case (Listen c)
  assume "owned cb s"
  then have le: "count_list (ipcMain s ch) cb \<le> pending s ch cb"
    and em: "is_disposed (toDispose s) \<longrightarrow> disposables (toDispose s) = []" for ch
    by (simp_all add: owned_def)
  show ?thesis
  proof (cases "is_disposed (toDispose s)")
    case True
    with \<open>owned cb s\<close> show ?thesis by (simp add: Listen reader_listen_def)
  next
    case False
    have "count_list (ipcMain (reader_listen c s) ch) cb \<le> pending (reader_listen c s) ch cb" for ch
      using le [of ch] False
      by (auto simp: pending_def reader_listen_def collection_push_def ipc_on_def)
    moreover have "\<not> is_disposed (toDispose (reader_listen c s))"
      using False by (simp add: reader_listen_def collection_push_def)
    ultimately show ?thesis by (simp add: Listen owned_def)
  qed
next
  case Reader_dispose
  assume "owned cb s"
  then show ?thesis by (simp add: Reader_dispose reader_dispose_def owned_dispose)
next
  case Writer_dispose
  assume "owned cb s"
  then show ?thesis by (simp add: Writer_dispose writer_dispose_def owned_dispose)
next
  case (Other_on ch c)
  assume "\<not> registers_directly cb x" "owned cb s"
  then show ?thesis by (simp add: Other_on owned_def pending_def ipc_on_def)
qed (auto simp: owned_def pending_def connection_defs)

lemma owned_run:
  "\<not> list_ex (registers_directly cb) xs \<Longrightarrow> owned cb s \<Longrightarrow> owned cb (run xs s)"
  by (induction xs arbitrary: s) (simp_all add: owned_step)

lemma owned_disposed:
  "owned cb s \<Longrightarrow> is_disposed (toDispose s) \<Longrightarrow> count_list (ipcMain s ch) cb = 0"
  by (auto simp: owned_def pending_def)

lemma dispose_disposes: "is_dispose d \<Longrightarrow> is_disposed (toDispose (step d s))"
  by (cases d) (simp_all add: reader_dispose_def writer_dispose_def collection_dispose_def)

lemma collection_dispose_disposes: "is_disposed (toDispose (collection_dispose s))"
  by (simp add: collection_dispose_def)

lemma disposed_step: "is_disposed (toDispose s) \<Longrightarrow> is_disposed (toDispose (step x s))"
  by (cases x) (simp_all add: connection_defs collection_dispose_def)

lemma disposed_run: "is_disposed (toDispose s) \<Longrightarrow> is_disposed (toDispose (run xs s))"
  by (induction xs arbitrary: s) (simp_all add: disposed_step)

lemma listen_disposed: "is_disposed (toDispose s) \<Longrightarrow> reader_listen cb s = s"
  by (simp add: reader_listen_def)

lemma write_disposed: "is_disposed (toDispose s) \<Longrightarrow> writer_write m s = s"
  by (simp add: writer_write_def)

lemma silent_step:
  assumes "is_disposed (toDispose s)" and "\<forall>ch. count_list (ipcMain s ch) cb = 0"
    and "\<not> registers_directly cb x"
  shows "(\<forall>ch. count_list (ipcMain (step x s) ch) cb = 0) \<and>
         delivered cb (effects (step x s)) = delivered cb (effects s)"
  using assms
  by (cases x)
    (simp_all add: connection_defs collection_dispose_def ipc_on_def ipc_emit_def
      delivered_append delivered_map_Invoked)

lemma silent_run:
  assumes "is_disposed (toDispose s)" and "\<forall>ch. count_list (ipcMain s ch) cb = 0"
    and "\<not> list_ex (registers_directly cb) xs"
  shows "delivered cb (effects (run xs s)) = delivered cb (effects s)"
  using assms
proof (induction xs arbitrary: s)
  case Nil
  show ?case by simp
next
  case (Cons x xs)
  from Cons.prems have nx: "\<not> registers_directly cb x"
    and nxs: "\<not> list_ex (registers_directly cb) xs" by simp_all
  from silent_step [OF Cons.prems(1,2) nx]
  have z: "\<forall>ch. count_list (ipcMain (step x s) ch) cb = 0"
    and d: "delivered cb (effects (step x s)) = delivered cb (effects s)" by simp_all
  from Cons.IH [OF disposed_step [OF Cons.prems(1)] z nxs] d show ?case by simp
qed

lemmas model_defs =
  init_def new_collection_def new_emitter_def collection_pushAll_def collection_push_def
  collection_dispose_def emitter_dispose_def emitter_event_def
  ipc_on_def ipc_emit_def ipc_removeListener_def remove_last_def ElectronIpcMainChannel_def

lemma fresh_init: "fresh init"
  by (simp add: fresh_def tracked_ids_def model_defs)

lemma tracked_ids_dispose: "tracked_ids (collection_dispose s) = tracked_ids s"
  by (simp add: tracked_ids_def collection_dispose_def dispose_each_effects released_append
      released_map_Released)

lemma next_id_dispose: "next_id (toDispose (collection_dispose s)) = next_id (toDispose s)"
  by (simp add: collection_dispose_def)

lemma fresh_dispose: "fresh s \<Longrightarrow> fresh (collection_dispose s)"
  by (simp add: fresh_def tracked_ids_dispose next_id_dispose)

lemma fresh_listen: "fresh s \<Longrightarrow> fresh (reader_listen cb s)"
  by (auto simp: fresh_def tracked_ids_def reader_listen_def collection_push_def less_Suc_eq)

lemma fresh_step: "fresh s \<Longrightarrow> fresh (step x s)"
proof (cases x)
  case (Listen c)
  assume "fresh s" then show ?thesis by (simp add: Listen fresh_listen)
next
  case Reader_dispose
  assume "fresh s" then show ?thesis by (simp add: Reader_dispose reader_dispose_def fresh_dispose)
next
  case Writer_dispose
  assume "fresh s" then show ?thesis by (simp add: Writer_dispose writer_dispose_def fresh_dispose)
qed (simp_all add: fresh_def tracked_ids_def connection_defs ipc_emit_def released_append
      released_map_Invoked)

lemma fresh_run: "fresh s \<Longrightarrow> fresh (run xs s)"
  by (induction xs arbitrary: s) (simp_all add: fresh_step)

lemma dispose_twice: "collection_dispose (collection_dispose s) = collection_dispose s"
  by (simp add: collection_dispose_def)

lemma fired_step: "filter is_fired (effects (step x s)) = filter is_fired (effects s)"
  by (cases x)
    (simp_all add: connection_defs collection_dispose_def dispose_each_effects ipc_emit_def
      fired_map_Invoked fired_map_Released)

lemma writes_in_order:
  "\<not> is_disposed (toDispose s) \<Longrightarrow> count_list (ipcMain s ElectronIpcMainChannel) cb = 1 \<Longrightarrow>
   delivered cb (effects (run (map Write ms) s)) = delivered cb (effects s) @ ms"
proof (induction ms arbitrary: s)
  case Nil
  show ?case by simp
next
  case (Cons m ms)
  have a: "\<not> is_disposed (toDispose (writer_write m s))"
    and c: "count_list (ipcMain (writer_write m s) ElectronIpcMainChannel) cb = 1"
    using Cons.prems by (simp_all add: writer_write_def)
  from Cons.IH [OF a c] write_fan_out [OF Cons.prems(1), of cb m] Cons.prems(2)
  show ?case by simp
qed

lemma pending_step:
  "\<not> listens c x \<Longrightarrow> pending s ch c = 0 \<Longrightarrow> pending (step x s) ch c = 0"
  by (cases x) (simp_all add: pending_def connection_defs collection_push_def collection_dispose_def)

lemma pending_run:
  "\<not> list_ex (listens c) xs \<Longrightarrow> pending s ch c = 0 \<Longrightarrow> pending (run xs s) ch c = 0"
  by (induction xs arbitrary: s) (simp_all add: pending_step)

lemma pending_init: "pending init ch c = 0"
  by (simp add: pending_def model_defs)

lemma dispose_step_registry:
  "is_dispose d \<Longrightarrow>
   count_list (ipcMain (step d s) ch) c \<le> count_list (ipcMain s ch) c \<and>
   count_list (ipcMain s ch) c - pending s ch c \<le> count_list (ipcMain (step d s) ch) c"
  by (cases d)
    (simp_all add: reader_dispose_def writer_dispose_def collection_dispose_def
      dispose_each_registry pending_def)

lemma owned_after_dispose:
  assumes "is_dispose d" and "\<not> list_ex (registers_directly cb) xs"
  shows "is_disposed (toDispose (run (xs @ [d]) init)) \<and>
         (\<forall>ch. count_list (ipcMain (run (xs @ [d]) init) ch) cb = 0)"
proof -
  from assms have "\<not> list_ex (registers_directly cb) (xs @ [d])"
    by (cases d) simp_all
  then have o: "owned cb (run (xs @ [d]) (init :: 'a state))"
    by (rule owned_run [OF _ owned_init])
  have d: "is_disposed (toDispose (run (xs @ [d]) (init :: 'a state)))"
    by (simp add: run_append dispose_disposes [OF assms(1)])
  from owned_disposed [OF o d] d show ?thesis by simp
qed

lemma dispose_runs_every_tracked_action:
  "released (effects (collection_dispose s)) =
     released (effects s) @
     (if is_disposed (toDispose s) then [] else map fst (disposables (toDispose s)))"
  by (simp add: collection_dispose_def dispose_each_effects released_append
      released_map_Released)

lemma fire_calls_subscribers:
  "emitter_fire nm x (emitter_event cb e) = emitter_fire nm x e @ [Fired nm cb x]"
  by (simp add: emitter_fire_def emitter_event_def)

section \<open>The claims\<close>

text \<open>
  C1. In a state whose tracker is not disposed and where \<open>cb\<close> is not yet registered
  on the channel, \<open>listen cb\<close> followed by operations that neither dispose the tracker nor
  register \<open>cb\<close> again, and then one \<open>write m\<close>: during that write \<open>cb\<close> is called exactly
  once, with \<open>m\<close> itself.
\<close>

theorem listen_write_delivers_once:
  assumes "\<not> is_disposed (toDispose s)"
    and "cb \<notin> set (ipcMain s ElectronIpcMainChannel)"
    and "list_all (keeps cb) mid"
  shows "delivered cb (effects (writer_write m (run mid (reader_listen cb s)))) =
         delivered cb (effects (run mid (reader_listen cb s))) @ [m]"
proof -
  let ?t = "run mid (reader_listen cb s)"
  from listen_registers [OF assms(1), of cb cb] assms(2)
  have a: "\<not> is_disposed (toDispose (reader_listen cb s))"
    and c: "count_list (ipcMain (reader_listen cb s) ElectronIpcMainChannel) cb = 1"
    by simp_all
  from keeps_run [OF assms(3) a] c
  have "\<not> is_disposed (toDispose ?t)" and "count_list (ipcMain ?t ElectronIpcMainChannel) cb = 1"
    by simp_all
  with write_fan_out [of ?t cb m] show ?thesis by simp
qed

theorem listen_write_delivers_once_witness:
  "\<not> is_disposed (toDispose (init :: string state)) \<and>
   7 \<notin> set (ipcMain (init :: string state) ElectronIpcMainChannel) \<and>
   list_all (keeps 7) [Listen 8, Write ''a'', Other_on ''x'' 7] \<and>
   delivered 7 (effects (writer_write ''ping''
     (run [Listen 8, Write ''a'', Other_on ''x'' 7] (reader_listen 7 init)))) = [''a'', ''ping'']"
proof -
  have h1: "\<not> is_disposed (toDispose (init :: string state))"
    by (simp add: model_defs)
  have h2: "7 \<notin> set (ipcMain (init :: string state) ElectronIpcMainChannel)"
    by (simp add: model_defs)
  have h3: "list_all (keeps 7) [Listen 8, Write ''a'', Other_on ''x'' 7 :: string op]"
    by (simp add: ElectronIpcMainChannel_def)
  have v: "delivered 7 (effects (run [Listen 8, Write ''a'', Other_on ''x'' 7]
             (reader_listen 7 (init :: string state)))) = [''a'']"
    by (simp add: model_defs connection_defs)
  show ?thesis
    using h1 h2 h3 v listen_write_delivers_once [OF h1 h2 h3, of "''ping''"] by simp
qed

text \<open>
  C2. After \<open>listen cb\<close> in a state whose tracker is not disposed (and \<open>cb\<close> not registered
  before), the writes \<open>m1, ..., mn\<close> are delivered to \<open>cb\<close> as exactly \<open>m1, ..., mn\<close>, in that
  order: nothing is dropped, repeated or reordered.
\<close>

theorem writes_observed_in_order:
  assumes "\<not> is_disposed (toDispose s)"
    and "cb \<notin> set (ipcMain s ElectronIpcMainChannel)"
  shows "delivered cb (effects (run (map Write ms) (reader_listen cb s))) =
         delivered cb (effects s) @ ms"
proof -
  from listen_registers [OF assms(1), of cb cb] assms(2)
  have a: "\<not> is_disposed (toDispose (reader_listen cb s))"
    and c: "count_list (ipcMain (reader_listen cb s) ElectronIpcMainChannel) cb = 1"
    by simp_all
  have "effects (reader_listen cb s) = effects s"
    by (simp add: reader_listen_def)
  with writes_in_order [OF a c, of ms] show ?thesis by simp
qed

theorem writes_observed_in_order_witness:
  "\<not> is_disposed (toDispose (init :: string state)) \<and>
   5 \<notin> set (ipcMain (init :: string state) ElectronIpcMainChannel) \<and>
   delivered 5 (effects (run (map Write [''m1'', ''m2'', ''m3'']) (reader_listen 5 init))) =
     [''m1'', ''m2'', ''m3'']"
proof -
  have h1: "\<not> is_disposed (toDispose (init :: string state))"
    by (simp add: model_defs)
  have h2: "5 \<notin> set (ipcMain (init :: string state) ElectronIpcMainChannel)"
    by (simp add: model_defs)
  have e: "effects (init :: string state) = []"
    by (simp add: init_def)
  show ?thesis
    using h1 h2 e writes_observed_in_order [OF h1 h2, of "[''m1'', ''m2'', ''m3'']"] by simp
qed

text \<open>
  C3. Once \<open>dispose\<close> was called (on the writer or on the reader), whatever operations
  follow, \<open>write m\<close> returns the state it was called in: no effect is added (nothing is
  published, no listener is called), and the call returns normally.
\<close>

theorem write_after_dispose_is_dropped:
  "writer_write m (run ops (writer_dispose s)) = run ops (writer_dispose s) \<and>
   writer_write m (run ops (reader_dispose s)) = run ops (reader_dispose s)"
  by (simp add: writer_dispose_def reader_dispose_def write_disposed disposed_run
      collection_dispose_disposes)

text \<open>
  C4. Once \<open>dispose\<close> was called, \<open>listen cb\<close> returns the state it was called in: the
  registry and the tracker are as before. Whatever is published later, \<open>cb\<close> is not
  called, as long as no other party registers \<open>cb\<close> on \<^verbatim>\<open>ipcMain\<close> itself.
\<close>

theorem listen_after_dispose_registers_nothing:
  assumes "is_dispose d"
  shows "reader_listen cb (run (pre @ d # mid) init) = run (pre @ d # mid) init \<and>
         (\<not> list_ex (registers_directly cb) (pre @ mid @ later) \<longrightarrow>
          delivered cb (effects (run later (reader_listen cb (run (pre @ d # mid) init)))) =
            delivered cb (effects (run (pre @ d # mid) init)))"
proof -
  let ?t = "run (pre @ d # mid) (init :: 'a state)"
  have dis: "is_disposed (toDispose ?t)"
    by (simp add: run_append disposed_run dispose_disposes [OF assms])
  have a: "reader_listen cb ?t = ?t"
    by (rule listen_disposed [OF dis])
  have "delivered cb (effects (run later ?t)) = delivered cb (effects ?t)"
    if none: "\<not> list_ex (registers_directly cb) (pre @ mid @ later)"
  proof -
    from none assms have n: "\<not> list_ex (registers_directly cb) (pre @ d # mid)"
      by (cases d) simp_all
    from none have l: "\<not> list_ex (registers_directly cb) later"
      by simp
    have o: "owned cb ?t"
      by (rule owned_run [OF n owned_init])
    have z: "\<forall>ch. count_list (ipcMain ?t ch) cb = 0"
      using owned_disposed [OF o dis] by simp
    show ?thesis
      by (rule silent_run [OF dis z l])
  qed
  with a show ?thesis by simp
qed

theorem listen_after_dispose_registers_nothing_witness:
  "is_dispose (Writer_dispose :: string op) \<and>
   \<not> list_ex (registers_directly 3)
       ([Listen 4] @ [Write ''a''] @ [Other_emit ElectronIpcMainChannel ''b'', Write ''c'' :: string op]) \<and>
   reader_listen 3 (run ([Listen 4] @ Writer_dispose # [Write ''a'']) (init :: string state)) =
     run ([Listen 4] @ Writer_dispose # [Write ''a'']) init \<and>
   delivered 3 (effects (run [Other_emit ElectronIpcMainChannel ''b'', Write ''c'']
      (reader_listen 3 (run ([Listen 4] @ Writer_dispose # [Write ''a'']) (init :: string state))))) = []"
proof -
  have h1: "is_dispose (Writer_dispose :: string op)" by simp
  have h2: "\<not> list_ex (registers_directly 3)
       ([Listen 4] @ [Write ''a''] @ [Other_emit ElectronIpcMainChannel ''b'', Write ''c'' :: string op])"
    by simp
  have v: "delivered 3 (effects (run ([Listen 4] @ Writer_dispose # [Write ''a''])
             (init :: string state))) = []"
    by (simp add: model_defs connection_defs)
  note t = listen_after_dispose_registers_nothing [OF h1,
      where cb = 3 and pre = "[Listen 4]" and mid = "[Write ''a'']"
        and later = "[Other_emit ElectronIpcMainChannel ''b'', Write ''c'']"]
  show ?thesis
    using h1 h2 v t [THEN conjunct1] t [THEN conjunct2, rule_format, OF h2] by simp
qed

text \<open>
  C5. Disposing twice, through the reader, the writer or one after the other, gives the
  state of disposing once; and in every run of the connection from its initial state
  no tracked action is run more than once.
\<close>

theorem dispose_is_idempotent:
  "reader_dispose (reader_dispose (s :: 'm state)) = reader_dispose s \<and>
   writer_dispose (writer_dispose s) = writer_dispose s \<and>
   writer_dispose (reader_dispose s) = reader_dispose s \<and>
   reader_dispose (writer_dispose s) = writer_dispose s \<and>
   distinct (released (effects (run ops (init :: 'm state))))"
proof -
  have "fresh (run ops (init :: 'm state))"
    by (rule fresh_run [OF fresh_init])
  then have "distinct (released (effects (run ops (init :: 'm state))))"
    by (simp add: fresh_def tracked_ids_def)
  then show ?thesis
    by (simp add: reader_dispose_def writer_dispose_def dispose_twice)
qed

text \<open>
  C6. No sequence of operations adds a call of a subscriber of the error, close or
  partial-message emitter to the effects: from the initial state there is none at all.
\<close>

theorem signals_never_fired:
  "filter is_fired (effects (run ops s)) = filter is_fired (effects s) \<and>
   filter is_fired (effects (run ops init)) = []"
proof -
  have a: "filter is_fired (effects (run ops t)) = filter is_fired (effects t)" for t :: "'a state"
    by (induction ops arbitrary: t) (simp_all add: fired_step)
  have "filter is_fired (effects (init :: 'a state)) = []"
    by (simp add: init_def)
  with a show ?thesis by simp
qed

text \<open>
  C7. After \<open>listen cb\<close> and a later \<open>dispose\<close>, \<open>cb\<close> is registered on no channel, and
  whatever is published afterwards, by the writer or by another party, \<open>cb\<close> is not called
  (as long as no other party registers \<open>cb\<close> on \<^verbatim>\<open>ipcMain\<close> itself). The disposal takes
  away nothing else: a callback \<open>c\<close> that was never passed to \<open>listen\<close> is registered as
  often after the disposal as before.
\<close>

theorem dispose_removes_the_listener:
  assumes "is_dispose d"
    and "\<not> list_ex (registers_directly cb) (pre @ mid @ later)"
  shows "cb \<notin> set (ipcMain (run (pre @ Listen cb # mid @ [d]) init) ch) \<and>
         delivered cb (effects (run later (run (pre @ Listen cb # mid @ [d]) init))) =
           delivered cb (effects (run (pre @ Listen cb # mid @ [d]) init)) \<and>
         (\<not> list_ex (listens c) (pre @ Listen cb # mid) \<longrightarrow>
          count_list (ipcMain (run (pre @ Listen cb # mid @ [d]) init) ch) c =
            count_list (ipcMain (run (pre @ Listen cb # mid) init) ch) c)"
proof -
  let ?xs = "pre @ Listen cb # mid"
  let ?t = "run (?xs @ [d]) (init :: 'a state)"
  from assms(2) have n: "\<not> list_ex (registers_directly cb) ?xs"
    and l: "\<not> list_ex (registers_directly cb) later" by simp_all
  from owned_after_dispose [OF assms(1) n]
  have dis: "is_disposed (toDispose ?t)" and z: "\<forall>ch. count_list (ipcMain ?t ch) cb = 0"
    by simp_all
  from z have "count_list (ipcMain ?t ch) cb = 0" by simp
  then have a: "cb \<notin> set (ipcMain ?t ch)"
    by (simp add: count_list_0_iff)
  have b: "delivered cb (effects (run later ?t)) = delivered cb (effects ?t)"
    by (rule silent_run [OF dis z l])
  have "count_list (ipcMain ?t ch) c = count_list (ipcMain (run ?xs init) ch) c"
    if never: "\<not> list_ex (listens c) ?xs"
  proof -
    have "pending (run ?xs (init :: 'a state)) ch c = 0"
      by (rule pending_run [OF never pending_init])
    with dispose_step_registry [OF assms(1), of "run ?xs init" ch c]
    show ?thesis by (simp add: run_append)
  qed
  with a b show ?thesis by simp
qed

theorem dispose_removes_the_listener_witness:
  "is_dispose (Reader_dispose :: string op) \<and>
   \<not> list_ex (registers_directly 3)
       ([Other_on ElectronIpcMainChannel 4] @ [Write ''a''] @
        [Other_emit ElectronIpcMainChannel ''b'', Write ''c'' :: string op]) \<and>
   \<not> list_ex (listens 4) ([Other_on ElectronIpcMainChannel 4] @ Listen 3 # [Write ''a'' :: string op]) \<and>
   3 \<notin> set (ipcMain (run ([Other_on ElectronIpcMainChannel 4] @ Listen 3 # [Write ''a''] @
                [Reader_dispose]) (init :: string state)) ElectronIpcMainChannel) \<and>
   delivered 3 (effects (run [Other_emit ElectronIpcMainChannel ''b'', Write ''c'']
      (run ([Other_on ElectronIpcMainChannel 4] @ Listen 3 # [Write ''a''] @ [Reader_dispose])
         (init :: string state)))) = [''a''] \<and>
   count_list (ipcMain (run ([Other_on ElectronIpcMainChannel 4] @ Listen 3 # [Write ''a''] @
                [Reader_dispose]) (init :: string state)) ElectronIpcMainChannel) 4 = 1"
proof -
  have h1: "is_dispose (Reader_dispose :: string op)" by simp
  have h2: "\<not> list_ex (registers_directly 3)
       ([Other_on ElectronIpcMainChannel 4] @ [Write ''a''] @
        [Other_emit ElectronIpcMainChannel ''b'', Write ''c'' :: string op])" by simp
  have h3: "\<not> list_ex (listens 4)
       ([Other_on ElectronIpcMainChannel 4] @ Listen 3 # [Write ''a'' :: string op])" by simp
  have v: "delivered 3 (effects (run ([Other_on ElectronIpcMainChannel 4] @ Listen 3 #
              [Write ''a''] @ [Reader_dispose]) (init :: string state))) = [''a'']"
    by (simp add: model_defs connection_defs)
  have w: "count_list (ipcMain (run ([Other_on ElectronIpcMainChannel 4] @ Listen 3 #
              [Write ''a'']) (init :: string state)) ElectronIpcMainChannel) 4 = 1"
    by (simp add: model_defs connection_defs)
  note t = dispose_removes_the_listener [OF h1 h2, of ElectronIpcMainChannel]
  show ?thesis
    using h1 h2 h3 v w t [THEN conjunct1] t [THEN conjunct2, THEN conjunct1]
      t [THEN conjunct2, THEN conjunct2, rule_format, OF h3]
    by simp
qed

text \<open>
  C8. Two different callbacks registered on the channel, both through \<open>listen\<close> or the
  second by another party on \<^verbatim>\<open>ipcMain\<close> itself: one \<open>write m\<close> calls each of them
  exactly once with \<open>m\<close>.
\<close>

theorem two_listeners_both_receive:
  assumes "\<not> is_disposed (toDispose s)"
    and "cb1 \<noteq> cb2"
    and "cb1 \<notin> set (ipcMain s ElectronIpcMainChannel)"
    and "cb2 \<notin> set (ipcMain s ElectronIpcMainChannel)"
  shows "delivered cb1 (effects (writer_write m (reader_listen cb2 (reader_listen cb1 s)))) =
           delivered cb1 (effects s) @ [m] \<and>
         delivered cb2 (effects (writer_write m (reader_listen cb2 (reader_listen cb1 s)))) =
           delivered cb2 (effects s) @ [m] \<and>
         delivered cb1 (effects (writer_write m
             (step (Other_on ElectronIpcMainChannel cb2) (reader_listen cb1 s)))) =
           delivered cb1 (effects s) @ [m] \<and>
         delivered cb2 (effects (writer_write m
             (step (Other_on ElectronIpcMainChannel cb2) (reader_listen cb1 s)))) =
           delivered cb2 (effects s) @ [m]"
  using assms
  by (simp add: writer_write_def reader_listen_def collection_push_def ipc_on_def ipc_emit_def
      delivered_append delivered_map_Invoked)

theorem two_listeners_both_receive_witness:
  "\<not> is_disposed (toDispose (init :: string state)) \<and> (1 :: nat) \<noteq> 2 \<and>
   1 \<notin> set (ipcMain (init :: string state) ElectronIpcMainChannel) \<and>
   2 \<notin> set (ipcMain (init :: string state) ElectronIpcMainChannel) \<and>
   delivered 1 (effects (writer_write ''ping'' (reader_listen 2 (reader_listen 1 init)))) =
     [''ping''] \<and>
   delivered 2 (effects (writer_write ''ping'' (reader_listen 2 (reader_listen 1 init)))) =
     [''ping'']"
proof -
  have h1: "\<not> is_disposed (toDispose (init :: string state))"
    by (simp add: model_defs)
  have h2: "(1 :: nat) \<noteq> 2" by simp
  have h3: "1 \<notin> set (ipcMain (init :: string state) ElectronIpcMainChannel)"
    by (simp add: model_defs)
  have h4: "2 \<notin> set (ipcMain (init :: string state) ElectronIpcMainChannel)"
    by (simp add: model_defs)
  have e: "effects (init :: string state) = []"
    by (simp add: init_def)
  show ?thesis
    using h1 h3 h4 e two_listeners_both_receive [OF h1 h2 h3 h4, of "''ping''"] by simp
qed

text \<open>
  C9. The reader's and the writer's \<open>dispose\<close> are the same operation on the one tracker.
  After either of them, whatever operations follow, the tracker is disposed, and both
  \<open>listen\<close> on the reader and \<open>write\<close> on the writer leave the state as it is.
\<close>

theorem reader_and_writer_share_the_tracker:
  "reader_dispose s = writer_dispose s \<and>
   is_disposed (toDispose (run ops (reader_dispose s))) \<and>
   is_disposed (toDispose (run ops (writer_dispose s))) \<and>
   reader_listen cb (run ops (writer_dispose s)) = run ops (writer_dispose s) \<and>
   writer_write m (run ops (reader_dispose s)) = run ops (reader_dispose s)"
  by (simp add: writer_dispose_def reader_dispose_def write_disposed listen_disposed disposed_run
      collection_dispose_disposes)

end
